theory Spec2Isabelle
  imports Complex_Main "HOL-Library.AList" "HOL-Library.List_Lexorder" "HOL-Library.Char_ord" "HOL-Library.Multiset"
begin

section \<open>Spatial graph (src/graph.py)\<close>

text \<open>
  Python floats are modelled as reals.  A Python \<open>dict\<close> is an association list with
  distinct keys in insertion order: \<open>d[k] = v\<close> is \<open>AList.update k v d\<close> (an existing key
  keeps its position, a new key goes to the end), \<open>k in d\<close> is membership in the key list
  and \<open>d[k]\<close> is \<open>map_of d k\<close>.
\<close>

datatype error = ValueError | KeyError | ZeroDivisionError | OverflowError

text \<open>\<open>class Node\<close>: id, coordinates and the dict of neighbours (neighbour id to distance).\<close>

record node =
  node_id :: string
  node_x :: real
  node_y :: real
  neighbors :: "(string \<times> real) list"

text \<open>\<open>class Graph\<close>: the dict of nodes and the set of edges (sorted pairs).\<close>

record graph =
  nodes :: "(string \<times> node) list"
  edges :: "(string \<times> string) set"

definition Graph_init :: graph where
  "Graph_init = \<lparr>nodes = [], edges = {}\<rparr>"

definition has_node :: "graph \<Rightarrow> string \<Rightarrow> bool" where
  "has_node g i = (i \<in> set (map fst (nodes g)))"

text \<open>
  \<open>Graph.add_node\<close> has no \<open>raise\<close>: it builds a fresh node (empty neighbour dict) and
  stores it under the id, replacing whatever was stored there.  The result type carries
  an error component only so that "fails" can be stated; the function never uses it.
\<close>

definition add_node :: "graph \<Rightarrow> string \<Rightarrow> real \<Rightarrow> real \<Rightarrow> error + graph" where
  "add_node g i x y =
     Inr (g\<lparr>nodes := AList.update i \<lparr>node_id = i, node_x = x, node_y = y, neighbors = []\<rparr> (nodes g)\<rparr>)"

text \<open>\<open>self.nodes[a].neighbors[b] = d\<close>, for a registered \<open>a\<close>.\<close>

definition set_neighbor :: "graph \<Rightarrow> string \<Rightarrow> string \<Rightarrow> real \<Rightarrow> graph" where
  "set_neighbor g a b d =
     (case map_of (nodes g) a of
        None \<Rightarrow> g
      | Some n \<Rightarrow> g\<lparr>nodes := AList.update a (n\<lparr>neighbors := AList.update b d (neighbors n)\<rparr>) (nodes g)\<rparr>)"

definition sorted_pair :: "string \<Rightarrow> string \<Rightarrow> string \<times> string" where
  "sorted_pair a b = (if a \<le> b then (a, b) else (b, a))"

definition add_edge :: "graph \<Rightarrow> string \<Rightarrow> string \<Rightarrow> real \<Rightarrow> error + graph" where
  "add_edge g a b d =
     (if \<not> has_node g a \<or> \<not> has_node g b then Inl ValueError
      else let g1 = set_neighbor g a b d;
               g2 = set_neighbor g1 b a d
           in Inr (g2\<lparr>edges := insert (sorted_pair a b) (edges g2)\<rparr>))"

text \<open>\<open>Graph.get_neighbors\<close>: a copy of the node's neighbour dict, the empty dict for an unknown id.\<close>

definition get_neighbors :: "graph \<Rightarrow> string \<Rightarrow> (string \<times> real) list" where
  "get_neighbors g i = (case map_of (nodes g) i of None \<Rightarrow> [] | Some n \<Rightarrow> neighbors n)"

text \<open>The weight with which \<open>a\<close> lists \<open>b\<close> as a neighbour, if it does.\<close>

definition nbr :: "graph \<Rightarrow> string \<Rightarrow> string \<Rightarrow> real option" where
  "nbr g a b = map_of (get_neighbors g a) b"

definition symmetric :: "graph \<Rightarrow> bool" where
  "symmetric g = (\<forall>a b w. nbr g a b = Some w \<longrightarrow> nbr g b a = Some w)"

text \<open>Graph states reachable from the empty graph by \<open>add_node\<close> and \<open>add_edge\<close>.\<close>

inductive reachable :: "graph \<Rightarrow> bool" where
  r_init: "reachable Graph_init"
| r_node: "reachable g \<Longrightarrow> add_node g i x y = Inr g' \<Longrightarrow> reachable g'"
| r_edge: "reachable g \<Longrightarrow> add_edge g a b d = Inr g' \<Longrightarrow> reachable g'"

text \<open>The same, where \<open>add_node\<close> is only ever called with an id that is not yet registered.\<close>

inductive reachable_fresh :: "graph \<Rightarrow> bool" where
  f_init: "reachable_fresh Graph_init"
| f_node: "reachable_fresh g \<Longrightarrow> \<not> has_node g i \<Longrightarrow> add_node g i x y = Inr g' \<Longrightarrow> reachable_fresh g'"
| f_edge: "reachable_fresh g \<Longrightarrow> add_edge g a b d = Inr g' \<Longrightarrow> reachable_fresh g'"

section \<open>Simulated annealing: flattened representation (src/sa_optimizer.py)\<close>

text \<open>A solution: the dict from truck id to route (list of node ids).\<close>

type_synonym routes = "(string \<times> string list) list"

text \<open>
  \<open>routes[truck_id]\<close> for a key taken from \<open>routes.keys()\<close>; the lookup cannot miss there,
  and the empty list stands for the unreachable miss.
\<close>

definition dict_get :: "('k \<times> 'v list) list \<Rightarrow> 'k \<Rightarrow> 'v list" where
  "dict_get d k = (case map_of d k of None \<Rightarrow> [] | Some r \<Rightarrow> r)"

text \<open>
  The loop of \<open>routes_to_tps_order\<close> over the sorted truck ids: \<open>start_idx\<close>, the non-depot
  nodes appended to \<open>all_tps\<close>, \<open>end_idx\<close>, the pair appended to \<open>route_indices\<close>.
  \<open>sorted\<close> on Python strings is the lexicographic order on code points, as is the order on
  \<open>string\<close> here.
\<close>

fun flatten_loop :: "routes \<Rightarrow> string \<Rightarrow> string list \<Rightarrow> string list \<Rightarrow> (nat \<times> nat) list
    \<Rightarrow> string list \<times> (nat \<times> nat) list" where
  "flatten_loop routes depot_id [] all_tps route_indices = (all_tps, route_indices)"
| "flatten_loop routes depot_id (truck_id # rest) all_tps route_indices =
     (let route = dict_get routes truck_id;
          start_idx = length all_tps;
          all_tps' = all_tps @ filter (\<lambda>n. n \<noteq> depot_id) route;
          end_idx = length all_tps'
      in flatten_loop routes depot_id rest all_tps' (route_indices @ [(start_idx, end_idx)]))"

definition routes_to_tps_order :: "routes \<Rightarrow> string \<Rightarrow> string list \<times> (nat \<times> nat) list" where
  "routes_to_tps_order routes depot_id =
     flatten_loop routes depot_id (sort (map fst routes)) [] []"

text \<open>The Python slice \<open>xs[s:e]\<close> for non-negative bounds (bounds past the end are clamped).\<close>

definition slice :: "'a list \<Rightarrow> nat \<Rightarrow> nat \<Rightarrow> 'a list" where
  "slice xs s e = drop s (take e xs)"

text \<open>The loop of \<open>tps_order_to_routes\<close> over \<open>zip(truck_ids, route_indices)\<close>.\<close>

fun unflatten_loop :: "string list \<Rightarrow> (string \<times> nat \<times> nat) list \<Rightarrow> string \<Rightarrow> routes \<Rightarrow> routes" where
  "unflatten_loop tps_order [] depot_id routes = routes"
| "unflatten_loop tps_order ((truck_id, start_idx, end_idx) # rest) depot_id routes =
     unflatten_loop tps_order rest depot_id
       (AList.update truck_id ([depot_id] @ slice tps_order start_idx end_idx @ [depot_id]) routes)"

definition tps_order_to_routes ::
  "string list \<Rightarrow> (nat \<times> nat) list \<Rightarrow> string list \<Rightarrow> string \<Rightarrow> routes" where
  "tps_order_to_routes tps_order route_indices truck_ids depot_id =
     unflatten_loop tps_order (zip truck_ids route_indices) depot_id []"


text \<open>
  The random source.  \<open>floats\<close> lists the successive results of \<open>random.random()\<close> and
  \<open>ints\<close> the raw draws behind the successive \<open>random.randint(0, n - 1)\<close> calls, reduced
  modulo \<open>n\<close>; every run of the program corresponds to some such pair of sequences.
\<close>

record rng =
  floats :: "nat \<Rightarrow> real"
  ints :: "nat \<Rightarrow> nat"
  fpos :: nat
  ipos :: nat

definition random_random :: "rng \<Rightarrow> real \<times> rng" where
  "random_random r = (floats r (fpos r), r\<lparr>fpos := Suc (fpos r)\<rparr>)"

definition randint0 :: "rng \<Rightarrow> nat \<Rightarrow> nat \<times> rng" where
  "randint0 r n = (ints r (ipos r) mod n, r\<lparr>ipos := Suc (ipos r)\<rparr>)"

text \<open>\<open>xs.pop(i)\<close> (the list that remains) and \<open>xs.insert(i, x)\<close>, for indices in range.\<close>

definition list_pop :: "'a list \<Rightarrow> nat \<Rightarrow> 'a list" where
  "list_pop xs i = take i xs @ drop (Suc i) xs"

definition list_insert :: "'a list \<Rightarrow> nat \<Rightarrow> 'a \<Rightarrow> 'a list" where
  "list_insert xs i x = take i xs @ [x] @ drop i xs"

text \<open>
  The perturbation inside \<open>generate_neighbor_solution\<close>: \<open>random.random() < 0.5 and
  len(tps_order) >= 2\<close> selects the swap of two positions, otherwise (with at least two
  entries) one entry is popped and re-inserted.
\<close>

definition perturb_order :: "string list \<Rightarrow> rng \<Rightarrow> string list \<times> rng" where
  "perturb_order tps_order r0 =
     (let (u, r1) = random_random r0 in
      if u < 0.5 \<and> 2 \<le> length tps_order then
        (let (idx1, r2) = randint0 r1 (length tps_order);
             (idx2, r3) = randint0 r2 (length tps_order)
         in (if idx1 \<noteq> idx2
             then tps_order[idx1 := tps_order ! idx2, idx2 := tps_order ! idx1]
             else tps_order, r3))
      else if 2 \<le> length tps_order then
        (let (idx, r2) = randint0 r1 (length tps_order);
             (new_pos, r3) = randint0 r2 (length tps_order)
         in (if idx \<noteq> new_pos
             then list_insert (list_pop tps_order idx) new_pos (tps_order ! idx)
             else tps_order, r3))
      else (tps_order, r1))"

definition generate_neighbor_solution :: "routes \<Rightarrow> string \<Rightarrow> rng \<Rightarrow> routes \<times> rng" where
  "generate_neighbor_solution routes depot_id r0 =
     (let truck_ids = sort (map fst routes);
          (tps_order, route_indices) = routes_to_tps_order routes depot_id;
          (tps_order', r1) = perturb_order tps_order r0
      in (tps_order_to_routes tps_order' route_indices truck_ids depot_id, r1))"

text \<open>
  A depot-framed route starts and ends with the depot and has the depot nowhere else; a
  depot-framed solution is a dict (distinct keys) of such routes.
\<close>

definition framed :: "string \<Rightarrow> string list \<Rightarrow> bool" where
  "framed depot_id route =
     (2 \<le> length route \<and> hd route = depot_id \<and> last route = depot_id
      \<and> depot_id \<notin> set (tl (butlast route)))"

definition depot_framed :: "routes \<Rightarrow> string \<Rightarrow> bool" where
  "depot_framed routes depot_id =
     (distinct (map fst routes) \<and> list_all (\<lambda>(t, route). framed depot_id route) routes)"

text \<open>The number of stops of a route: its entries other than the depot.\<close>

definition num_stops :: "string \<Rightarrow> string list \<Rightarrow> nat" where
  "num_stops depot_id route = length (filter (\<lambda>n. n \<noteq> depot_id) route)"

text \<open>Auxiliary: the index ranges of consecutive segments of given lengths, from offset \<open>n\<close>.\<close>

fun spans :: "nat \<Rightarrow> nat list \<Rightarrow> (nat \<times> nat) list" where
  "spans n [] = []"
| "spans n (l # ls) = (n, n + l) # spans (n + l) ls"

definition stops_of :: "routes \<Rightarrow> string \<Rightarrow> string \<Rightarrow> string list" where
  "stops_of routes depot_id t = filter (\<lambda>n. n \<noteq> depot_id) (dict_get routes t)"

definition rng0 :: rng where
  "rng0 = \<lparr>floats = (\<lambda>k. 0), ints = (\<lambda>k. k), fpos = 0, ipos = 0\<rparr>"

section \<open>Distances (src/graph.py, src/two_opt.py)\<close>

text \<open>
  The values a Python float takes in distance computations: a finite number (a real here),
  \<open>float('inf')\<close>, its negation, and the not-a-number that \<open>inf - inf\<close> gives.  Addition,
  subtraction and comparison follow IEEE 754: NaN absorbs, and every comparison with NaN is
  false.
\<close>

datatype pyfloat = Fin real | PInf | NInf | NaN

fun fadd :: "pyfloat \<Rightarrow> pyfloat \<Rightarrow> pyfloat" where
  "fadd (Fin a) (Fin b) = Fin (a + b)"
| "fadd NaN _ = NaN"
| "fadd _ NaN = NaN"
| "fadd PInf NInf = NaN"
| "fadd NInf PInf = NaN"
| "fadd PInf _ = PInf"
| "fadd _ PInf = PInf"
| "fadd NInf _ = NInf"
| "fadd _ NInf = NInf"



fun fless :: "pyfloat \<Rightarrow> pyfloat \<Rightarrow> bool" where
  "fless (Fin a) (Fin b) = (a < b)"
| "fless NaN _ = False"
| "fless _ NaN = False"
| "fless NInf NInf = False"
| "fless NInf _ = True"
| "fless PInf _ = False"
| "fless (Fin a) PInf = True"
| "fless (Fin a) NInf = False"

fun fle :: "pyfloat \<Rightarrow> pyfloat \<Rightarrow> bool" where
  "fle (Fin a) (Fin b) = (a \<le> b)"
| "fle NaN _ = False"
| "fle _ NaN = False"
| "fle NInf _ = True"
| "fle PInf PInf = True"
| "fle PInf _ = False"
| "fle (Fin a) PInf = True"
| "fle (Fin a) NInf = False"

text \<open>\<open>Graph.euclidean\<close>: \<open>float('inf')\<close> when either id is not a node of the graph.\<close>

definition euclidean :: "graph \<Rightarrow> string \<Rightarrow> string \<Rightarrow> pyfloat" where
  "euclidean g node_id1 node_id2 =
     (if \<not> has_node g node_id1 \<or> \<not> has_node g node_id2 then PInf
      else case (map_of (nodes g) node_id1, map_of (nodes g) node_id2) of
             (Some node1, Some node2) \<Rightarrow>
               (let dx = node_x node1 - node_x node2;
                    dy = node_y node1 - node_y node2
                in Fin (sqrt (dx * dx + dy * dy)))
           | _ \<Rightarrow> PInf)"





section \<open>2-opt local search (src/two_opt.py)\<close>













section \<open>Simulated annealing: the optimisation loop (src/sa_optimizer.py)\<close>












section \<open>Greedy construction heuristic (src/greedy_init.py)\<close>

text \<open>\<open>class TPS\<close> (a demand site) and \<open>class Truck\<close>.\<close>

record TPS =
  tps_id :: string
  tps_node_id :: string
  demand :: real

record Truck =
  truck_id :: string
  capacity :: real




text \<open>
  \<open>tps_dict[n].demand\<close> and \<open>truck_remaining_capacity[id]\<close>.  Every key that the function
  looks up was put into the dict when it was built, so the lookups cannot miss; 0 stands for
  the unreachable miss.
\<close>

definition demand_of :: "(string \<times> TPS) list \<Rightarrow> string \<Rightarrow> real" where
  "demand_of tps_dict n = (case map_of tps_dict n of None \<Rightarrow> 0 | Some tps \<Rightarrow> demand tps)"


text \<open>
  The \<open>for tps_node_id in remaining_tps\<close> loop that looks for the nearest site that still
  fits: \<open>best_tps_node\<close> and \<open>best_distance\<close> start as \<open>None\<close> and \<open>float('inf')\<close>.
  \<open>remaining_tps\<close> is a Python set; it is modelled as the list of its elements in iteration
  order.
\<close>

fun select_loop :: "graph \<Rightarrow> (string \<times> TPS) list \<Rightarrow> string \<Rightarrow> real \<Rightarrow> string list
    \<Rightarrow> string option \<Rightarrow> pyfloat \<Rightarrow> string option" where
  "select_loop g tps_dict current_location current_capacity [] best_tps_node best_distance =
     best_tps_node"
| "select_loop g tps_dict current_location current_capacity (n # ns) best_tps_node best_distance =
     (if demand_of tps_dict n > current_capacity
      then select_loop g tps_dict current_location current_capacity ns best_tps_node best_distance
      else let distance = euclidean g current_location n in
        if fless distance best_distance
        then select_loop g tps_dict current_location current_capacity ns (Some n) distance
        else select_loop g tps_dict current_location current_capacity ns best_tps_node best_distance)"











section \<open>Graph: lemmas\<close>

lemma has_node_map_of: "has_node g i \<longleftrightarrow> map_of (nodes g) i \<noteq> None"
  by (simp add: has_node_def map_of_eq_None_iff)

lemma nbr_add_node:
  "add_node g i x y = Inr g' \<Longrightarrow> nbr g' a b = (if a = i then None else nbr g a b)"
  by (auto simp: add_node_def nbr_def get_neighbors_def AList.update_conv')

lemma has_node_add_node:
  "add_node g i x y = Inr g' \<Longrightarrow> has_node g' j \<longleftrightarrow> j = i \<or> has_node g j"
  by (auto simp: add_node_def has_node_map_of AList.update_conv')

lemma nbr_set_neighbor:
  "has_node g a \<Longrightarrow>
   nbr (set_neighbor g a b d) u v = (if u = a \<and> v = b then Some d else nbr g u v)"
  by (auto simp: set_neighbor_def nbr_def get_neighbors_def has_node_map_of AList.update_conv'
           split: option.splits)

lemma has_node_set_neighbor: "has_node (set_neighbor g a b d) j = has_node g j"
  by (auto simp: set_neighbor_def has_node_map_of AList.update_conv' split: option.splits)

lemma nbr_edges_update: "nbr (g\<lparr>edges := E\<rparr>) u v = nbr g u v"
  by (simp add: nbr_def get_neighbors_def)

lemma add_edge_Inr:
  "add_edge g a b d = Inr g' \<longleftrightarrow>
     has_node g a \<and> has_node g b \<and>
     g' = (set_neighbor (set_neighbor g a b d) b a d)
      \<lparr>edges := insert (sorted_pair a b) (edges (set_neighbor (set_neighbor g a b d) b a d))\<rparr>"
  unfolding add_edge_def Let_def by (cases "has_node g a"; cases "has_node g b"; simp; blast)

lemma add_edge_Inl:
  "(\<exists>e. add_edge g a b d = Inl e) \<longleftrightarrow> (\<not> has_node g a \<or> \<not> has_node g b)"
  unfolding add_edge_def Let_def by (cases "has_node g a"; cases "has_node g b"; simp)

lemma has_node_edges_update: "has_node (g\<lparr>edges := E\<rparr>) j = has_node g j"
  by (simp add: has_node_def)

lemma nbr_add_edge:
  assumes "add_edge g a b d = Inr g'"
  shows "nbr g' u v = (if (u = a \<and> v = b) \<or> (u = b \<and> v = a) then Some d else nbr g u v)"
proof -
  from assms have ha: "has_node g a" and hb: "has_node g b"
    and g': "g' = (set_neighbor (set_neighbor g a b d) b a d)
      \<lparr>edges := insert (sorted_pair a b) (edges (set_neighbor (set_neighbor g a b d) b a d))\<rparr>"
    by (simp_all add: add_edge_Inr)
  have hb1: "has_node (set_neighbor g a b d) b"
    using hb by (simp add: has_node_set_neighbor)
  have 0: "nbr g' u v = nbr (set_neighbor (set_neighbor g a b d) b a d) u v"
    unfolding g' by (rule nbr_edges_update)
  have 1: "nbr (set_neighbor (set_neighbor g a b d) b a d) u v
     = (if u = b \<and> v = a then Some d else nbr (set_neighbor g a b d) u v)"
    by (rule nbr_set_neighbor [OF hb1])
  have 2: "nbr (set_neighbor g a b d) u v = (if u = a \<and> v = b then Some d else nbr g u v)"
    by (rule nbr_set_neighbor [OF ha])
  show ?thesis
    unfolding 0 1 2 by (cases "u = a"; cases "v = b"; cases "u = b"; cases "v = a"; simp)
qed

lemma has_node_add_edge: "add_edge g a b d = Inr g' \<Longrightarrow> has_node g' j = has_node g j"
  by (simp add: add_edge_Inr has_node_edges_update has_node_set_neighbor)

lemma nbr_unregistered: "\<not> has_node g a \<Longrightarrow> nbr g a b = None"
  by (simp add: nbr_def get_neighbors_def has_node_map_of)

text \<open>In a state built with fresh ids only, every neighbour entry points at a registered node.\<close>

lemma reachable_fresh_closed:
  "reachable_fresh g \<Longrightarrow> nbr g a b = Some w \<Longrightarrow> has_node g a \<and> has_node g b"
proof (induction arbitrary: a b w rule: reachable_fresh.induct)
  case f_init
  then show ?case by (simp add: nbr_def get_neighbors_def Graph_init_def)
next
  case (f_node g i x y g')
  have nb: "nbr g' a b = (if a = i then None else nbr g a b)"
    by (rule nbr_add_node [OF f_node.hyps(3)])
  have hn: "\<And>j. has_node g' j \<longleftrightarrow> j = i \<or> has_node g j"
    by (rule has_node_add_node [OF f_node.hyps(3)])
  from f_node.prems nb have "nbr g a b = Some w"
    by (cases "a = i") simp_all
  from f_node.IH [OF this] show ?case
    by (simp add: hn)
next
  case (f_edge g p q d g')
  from f_edge.hyps(2) have pq: "has_node g p" "has_node g q"
    by (simp_all add: add_edge_Inr)
  have nb: "nbr g' a b = (if (a = p \<and> b = q) \<or> (a = q \<and> b = p) then Some d else nbr g a b)"
    by (rule nbr_add_edge [OF f_edge.hyps(2)])
  have hn: "\<And>j. has_node g' j = has_node g j"
    by (rule has_node_add_edge [OF f_edge.hyps(2)])
  show ?case
  proof (cases "(a = p \<and> b = q) \<or> (a = q \<and> b = p)")
    case True
    with pq show ?thesis unfolding hn by blast
  next
    case False
    have "nbr g' a b = nbr g a b" by (simp only: nb False if_False)
    with f_edge.prems have "nbr g a b = Some w" by simp
    from f_edge.IH [OF this] show ?thesis unfolding hn .
  qed
qed

lemma reachable_fresh_symmetric: "reachable_fresh g \<Longrightarrow> symmetric g"
proof (induction rule: reachable_fresh.induct)
  case f_init
  then show ?case by (simp add: symmetric_def nbr_def get_neighbors_def Graph_init_def)
next
  case (f_node g i x y g')
  have nb: "\<And>a b. nbr g' a b = (if a = i then None else nbr g a b)"
    by (rule nbr_add_node [OF f_node.hyps(3)])
  show ?case
    unfolding symmetric_def
  proof (intro allI impI)
    fix a b w
    assume h: "nbr g' a b = Some w"
    have ai: "a \<noteq> i" using h nb [of a b] by (cases "a = i") simp_all
    with h nb [of a b] have gab: "nbr g a b = Some w" by simp
    from reachable_fresh_closed [OF f_node.hyps(1) gab] f_node.hyps(2) have "b \<noteq> i" by blast
    moreover from f_node.IH gab have "nbr g b a = Some w" unfolding symmetric_def by blast
    ultimately show "nbr g' b a = Some w"
      by (simp add: nb [of b a])
  qed
next
  case (f_edge g p q d g')
  have nb: "\<And>a b. nbr g' a b = (if (a = p \<and> b = q) \<or> (a = q \<and> b = p) then Some d else nbr g a b)"
    by (rule nbr_add_edge [OF f_edge.hyps(2)])
  show ?case
    unfolding symmetric_def
  proof (intro allI impI)
    fix a b w
    assume h: "nbr g' a b = Some w"
    show "nbr g' b a = Some w"
    proof (cases "(a = p \<and> b = q) \<or> (a = q \<and> b = p)")
      case True
      then have "(b = p \<and> a = q) \<or> (b = q \<and> a = p)" by blast
      moreover from True h nb [of a b] have "w = d" by simp
      ultimately show ?thesis using nb [of b a] by simp
    next
      case False
      then have F: "\<not> ((b = p \<and> a = q) \<or> (b = q \<and> a = p))" by blast
      have "nbr g' a b = nbr g a b" by (simp only: nb False if_False)
      with h have "nbr g a b = Some w" by simp
      with f_edge.IH have "nbr g b a = Some w" unfolding symmetric_def by blast
      moreover have "nbr g' b a = nbr g b a" by (simp only: nb F if_False)
      ultimately show ?thesis by simp
    qed
  qed
qed


section \<open>Graph: claims\<close>

text \<open>
  C7 (as stated, refuted): \<open>add_node\<close> with an id that is already registered does not fail.
  On the graph holding node \<open>A\<close> at (0, 0), \<open>add_node A 5 5\<close> returns normally, with \<open>A\<close>
  replaced by a fresh node at (5, 5).
\<close>

theorem add_node_duplicate_counterexample:
  "has_node \<lparr>nodes = [(''A'', \<lparr>node_id = ''A'', node_x = 0, node_y = 0, neighbors = []\<rparr>)], edges = {}\<rparr> ''A''
   \<and> add_node \<lparr>nodes = [(''A'', \<lparr>node_id = ''A'', node_x = 0, node_y = 0, neighbors = []\<rparr>)], edges = {}\<rparr> ''A'' 5 5
     = Inr \<lparr>nodes = [(''A'', \<lparr>node_id = ''A'', node_x = 5, node_y = 5, neighbors = []\<rparr>)], edges = {}\<rparr>"
  by (simp add: has_node_def add_node_def)

text \<open>
  C7 (amended): \<open>add_node\<close> never fails, whether or not the id is registered: it returns the
  graph in which the id is registered with a fresh node carrying the given coordinates and
  no neighbours, every other node and the edge set being unchanged.
\<close>

theorem add_node_overwrites:
  "\<exists>g'. add_node g i x y = Inr g'
     \<and> map_of (nodes g') i = Some \<lparr>node_id = i, node_x = x, node_y = y, neighbors = []\<rparr>
     \<and> (\<forall>j. j \<noteq> i \<longrightarrow> map_of (nodes g') j = map_of (nodes g) j)
     \<and> edges g' = edges g"
  by (simp add: add_node_def AList.update_conv')

theorem add_node_overwrites_witness:
  "\<exists>g'. add_node \<lparr>nodes = [(''A'', \<lparr>node_id = ''A'', node_x = 0, node_y = 0, neighbors = []\<rparr>)], edges = {}\<rparr> ''A'' 5 5 = Inr g'
     \<and> map_of (nodes g') ''A'' = Some \<lparr>node_id = ''A'', node_x = 5, node_y = 5, neighbors = []\<rparr>
     \<and> (''B'' \<noteq> ''A'' \<longrightarrow> map_of (nodes g') ''B'' = None)"
  using add_node_overwrites [of "\<lparr>nodes = [(''A'', \<lparr>node_id = ''A'', node_x = 0, node_y = 0, neighbors = []\<rparr>)], edges = {}\<rparr>" "''A''" 5 5]
  by auto

text \<open>
  C8 (as stated, refuted): after \<open>add_node A\<close>, \<open>add_node B\<close>, \<open>add_edge A B 1\<close> and a second
  \<open>add_node A\<close>, which replaces \<open>A\<close> by a node without neighbours, \<open>B\<close> lists \<open>A\<close> with
  weight 1 and \<open>A\<close> does not list \<open>B\<close>.
\<close>

theorem symmetry_counterexample:
  "reachable \<lparr>nodes = [(''A'', \<lparr>node_id = ''A'', node_x = 0, node_y = 0, neighbors = []\<rparr>),
                       (''B'', \<lparr>node_id = ''B'', node_x = 1, node_y = 0, neighbors = [(''A'', 1)]\<rparr>)],
              edges = {(''A'', ''B'')}\<rparr>
   \<and> nbr \<lparr>nodes = [(''A'', \<lparr>node_id = ''A'', node_x = 0, node_y = 0, neighbors = []\<rparr>),
                   (''B'', \<lparr>node_id = ''B'', node_x = 1, node_y = 0, neighbors = [(''A'', 1)]\<rparr>)],
          edges = {(''A'', ''B'')}\<rparr> ''B'' ''A'' = Some 1
   \<and> nbr \<lparr>nodes = [(''A'', \<lparr>node_id = ''A'', node_x = 0, node_y = 0, neighbors = []\<rparr>),
                   (''B'', \<lparr>node_id = ''B'', node_x = 1, node_y = 0, neighbors = [(''A'', 1)]\<rparr>)],
          edges = {(''A'', ''B'')}\<rparr> ''A'' ''B'' = None"
proof -
  let ?nA = "\<lparr>node_id = ''A'', node_x = 0, node_y = 0, neighbors = []\<rparr>"
  let ?nB = "\<lparr>node_id = ''B'', node_x = 1, node_y = 0, neighbors = []\<rparr>"
  let ?g1 = "\<lparr>nodes = [(''A'', ?nA)], edges = {}\<rparr>"
  let ?g2 = "\<lparr>nodes = [(''A'', ?nA), (''B'', ?nB)], edges = {}\<rparr>"
  let ?g3 = "\<lparr>nodes = [(''A'', ?nA\<lparr>neighbors := [(''B'', 1)]\<rparr>), (''B'', ?nB\<lparr>neighbors := [(''A'', 1)]\<rparr>)],
              edges = {(''A'', ''B'')}\<rparr>"
  let ?g4 = "\<lparr>nodes = [(''A'', ?nA), (''B'', ?nB\<lparr>neighbors := [(''A'', 1)]\<rparr>)], edges = {(''A'', ''B'')}\<rparr>"
  have s1: "add_node Graph_init ''A'' 0 0 = Inr ?g1"
    by (simp add: add_node_def Graph_init_def)
  have s2: "add_node ?g1 ''B'' 1 0 = Inr ?g2"
    by (simp add: add_node_def)
  have s3: "add_edge ?g2 ''A'' ''B'' 1 = Inr ?g3"
    by (simp add: add_edge_def has_node_def set_neighbor_def sorted_pair_def Let_def)
  have s4: "add_node ?g3 ''A'' 0 0 = Inr ?g4"
    by (simp add: add_node_def)
  have "reachable ?g4"
    using r_node [OF r_edge [OF r_node [OF r_node [OF r_init s1] s2] s3] s4] .
  moreover have "nbr ?g4 ''B'' ''A'' = Some 1" "nbr ?g4 ''A'' ''B'' = None"
    by (simp_all add: nbr_def get_neighbors_def)
  ultimately show ?thesis by simp
qed

text \<open>
  C8 (amended): the adjacency symmetry invariant holds in every graph state reachable by
  \<open>add_edge\<close> and by \<open>add_node\<close> calls with ids that are not yet registered; \<open>add_edge\<close>
  raises exactly when one of its endpoints is not a registered node, and otherwise the
  resulting graph lists each endpoint as a neighbour of the other with the given weight.
\<close>

theorem add_edge_symmetric:
  "(reachable_fresh g \<longrightarrow> symmetric g)
   \<and> ((\<exists>e. add_edge g a b d = Inl e) \<longleftrightarrow> (\<not> has_node g a \<or> \<not> has_node g b))
   \<and> (\<forall>g'. add_edge g a b d = Inr g' \<longrightarrow> nbr g' a b = Some d \<and> nbr g' b a = Some d)"
proof (intro conjI)
  show "reachable_fresh g \<longrightarrow> symmetric g"
    by (simp add: reachable_fresh_symmetric)
  show "(\<exists>e. add_edge g a b d = Inl e) \<longleftrightarrow> (\<not> has_node g a \<or> \<not> has_node g b)"
    by (rule add_edge_Inl)
  show "\<forall>g'. add_edge g a b d = Inr g' \<longrightarrow> nbr g' a b = Some d \<and> nbr g' b a = Some d"
    by (simp add: nbr_add_edge)
qed

theorem add_edge_symmetric_witness:
  "reachable_fresh \<lparr>nodes = [(''A'', \<lparr>node_id = ''A'', node_x = 0, node_y = 0, neighbors = []\<rparr>),
                             (''B'', \<lparr>node_id = ''B'', node_x = 1, node_y = 0, neighbors = []\<rparr>)],
                    edges = {}\<rparr>
   \<and> symmetric \<lparr>nodes = [(''A'', \<lparr>node_id = ''A'', node_x = 0, node_y = 0, neighbors = []\<rparr>),
                         (''B'', \<lparr>node_id = ''B'', node_x = 1, node_y = 0, neighbors = []\<rparr>)],
                edges = {}\<rparr>
   \<and> add_edge \<lparr>nodes = [(''A'', \<lparr>node_id = ''A'', node_x = 0, node_y = 0, neighbors = []\<rparr>),
                        (''B'', \<lparr>node_id = ''B'', node_x = 1, node_y = 0, neighbors = []\<rparr>)],
               edges = {}\<rparr> ''A'' ''B'' 1
       = Inr \<lparr>nodes = [(''A'', \<lparr>node_id = ''A'', node_x = 0, node_y = 0, neighbors = [(''B'', 1)]\<rparr>),
                        (''B'', \<lparr>node_id = ''B'', node_x = 1, node_y = 0, neighbors = [(''A'', 1)]\<rparr>)],
               edges = {(''A'', ''B'')}\<rparr>
   \<and> nbr \<lparr>nodes = [(''A'', \<lparr>node_id = ''A'', node_x = 0, node_y = 0, neighbors = [(''B'', 1)]\<rparr>),
                   (''B'', \<lparr>node_id = ''B'', node_x = 1, node_y = 0, neighbors = [(''A'', 1)]\<rparr>)],
          edges = {(''A'', ''B'')}\<rparr> ''B'' ''A'' = Some 1
   \<and> (\<exists>e. add_edge \<lparr>nodes = [(''A'', \<lparr>node_id = ''A'', node_x = 0, node_y = 0, neighbors = []\<rparr>),
                             (''B'', \<lparr>node_id = ''B'', node_x = 1, node_y = 0, neighbors = []\<rparr>)],
                    edges = {}\<rparr> ''A'' ''C'' 1 = Inl e)"
proof -
  let ?nA = "\<lparr>node_id = ''A'', node_x = 0, node_y = 0, neighbors = []\<rparr>"
  let ?nB = "\<lparr>node_id = ''B'', node_x = 1, node_y = 0, neighbors = []\<rparr>"
  let ?g1 = "\<lparr>nodes = [(''A'', ?nA)], edges = {}\<rparr>"
  let ?g2 = "\<lparr>nodes = [(''A'', ?nA), (''B'', ?nB)], edges = {}\<rparr>"
  let ?g3 = "\<lparr>nodes = [(''A'', ?nA\<lparr>neighbors := [(''B'', 1)]\<rparr>), (''B'', ?nB\<lparr>neighbors := [(''A'', 1)]\<rparr>)],
              edges = {(''A'', ''B'')}\<rparr>"
  have s1: "add_node Graph_init ''A'' 0 0 = Inr ?g1"
    by (simp add: add_node_def Graph_init_def)
  have s2: "add_node ?g1 ''B'' 1 0 = Inr ?g2"
    by (simp add: add_node_def)
  have f1: "\<not> has_node Graph_init ''A''" by (simp add: has_node_def Graph_init_def)
  have f2: "\<not> has_node ?g1 ''B''" by (simp add: has_node_def)
  have r: "reachable_fresh ?g2"
    using f_node [OF f_node [OF f_init f1 s1] f2 s2] .
  have s3: "add_edge ?g2 ''A'' ''B'' 1 = Inr ?g3"
    by (simp add: add_edge_def has_node_def set_neighbor_def sorted_pair_def Let_def)
  have nC: "\<not> has_node ?g2 ''C''" by (simp add: has_node_def)
  from add_edge_symmetric [of ?g2 "''A''" "''B''" 1] r s3
  have a: "symmetric ?g2" and b: "nbr ?g3 ''B'' ''A'' = Some 1"
    by simp_all
  from add_edge_symmetric [of ?g2 "''A''" "''C''" 1] nC
  have c: "\<exists>e. add_edge ?g2 ''A'' ''C'' 1 = Inl e" by blast
  from r a s3 b c show ?thesis by simp
qed

section \<open>Flattened representation: lemmas\<close>

lemma spans_append: "spans n (ls @ [l]) = spans n ls @ [(n + sum_list ls, n + sum_list ls + l)]"
  by (induction ls arbitrary: n) (simp_all add: add.assoc)

lemma length_spans [simp]: "length (spans n ls) = length ls"
  by (induction ls arbitrary: n) simp_all

lemma flatten_loop_eq:
  "flatten_loop routes d ks acc idx =
     (acc @ concat (map (stops_of routes d) ks),
      idx @ spans (length acc) (map (\<lambda>k. length (stops_of routes d k)) ks))"
  by (induction ks arbitrary: acc idx) (simp_all add: Let_def stops_of_def)

lemma routes_to_tps_order_eq:
  "routes_to_tps_order routes d =
     (concat (map (stops_of routes d) (sort (map fst routes))),
      spans 0 (map (\<lambda>k. length (stops_of routes d k)) (sort (map fst routes))))"
  by (simp add: routes_to_tps_order_def flatten_loop_eq)

lemma unflatten_loop_map_of:
  "distinct (map fst zs) \<Longrightarrow>
   map_of (unflatten_loop tps zs d acc) =
     map_of acc ++ map_of (map (\<lambda>(t, s, e). (t, [d] @ slice tps s e @ [d])) zs)"
proof (induction zs arbitrary: acc)
  case Nil
  then show ?case by simp
next
  case (Cons z zs)
  obtain t s e where z: "z = (t, s, e)" by (cases z)
  let ?f = "\<lambda>(t, s, e). (t, [d] @ slice tps s e @ [d])"
  from Cons.prems z have t: "t \<notin> fst ` set zs" and dz: "distinct (map fst zs)" by auto
  have "fst ` set (map ?f zs) = fst ` set zs" by force
  with t have nd: "t \<notin> dom (map_of (map ?f zs))" by (simp add: dom_map_of_conv_image_fst)
  let ?v = "[d] @ slice tps s e @ [d]"
  have "map_of (unflatten_loop tps (z # zs) d acc)
      = map_of (unflatten_loop tps zs d (AList.update t ?v acc))"
    by (simp add: z)
  also have "\<dots> = map_of (AList.update t ?v acc) ++ map_of (map ?f zs)"
    by (rule Cons.IH [OF dz])
  also have "\<dots> = (map_of acc)(t \<mapsto> ?v) ++ map_of (map ?f zs)"
    by (simp only: AList.update_conv')
  also have "\<dots> = map_of acc ++ (map_of (map ?f zs))(t \<mapsto> ?v)"
    using nd by (auto simp: map_add_def fun_eq_iff split: option.splits)
  also have "\<dots> = map_of acc ++ map_of (map ?f (z # zs))"
    by (simp add: z)
  finally show ?case .
qed

lemma slice_spans_concat:
  "map (\<lambda>(s, e). slice (pre @ concat segs) s e) (spans (length pre) (map length segs)) = segs"
proof (induction segs arbitrary: pre)
  case Nil
  then show ?case by simp
next
  case (Cons seg segs)
  have "slice (pre @ seg @ concat segs) (length pre) (length pre + length seg) = seg"
    by (simp add: slice_def)
  moreover from Cons.IH [of "pre @ seg"]
  have "map (\<lambda>(s, e). slice (pre @ seg @ concat segs) s e)
          (spans (length pre + length seg) (map length segs)) = segs" by simp
  ultimately show ?case by simp
qed

lemma length_slice_spans:
  "n + sum_list ls \<le> length xs \<Longrightarrow>
   map (\<lambda>(s, e). length (slice xs s e)) (spans n ls) = ls"
  by (induction ls arbitrary: n) (simp_all add: slice_def)

lemma set_slice: "set (slice xs s e) \<subseteq> set xs"
  unfolding slice_def by (meson order_trans set_drop_subset set_take_subset)

lemma framed_filter: "framed d r \<Longrightarrow> [d] @ filter (\<lambda>n. n \<noteq> d) r @ [d] = r"
proof -
  assume f: "framed d r"
  then obtain a r1 where r: "r = a # r1" by (cases r) (auto simp: framed_def)
  with f have "r1 \<noteq> []" by (auto simp: framed_def)
  then obtain mid b where r1: "r1 = mid @ [b]" by (metis rev_exhaust)
  from f r r1 have "a = d" "b = d" "d \<notin> set mid" by (auto simp: framed_def butlast_append)
  then show ?thesis by (auto simp: r r1 filter_id_conv)
qed


lemma mset_pop_insert:
  assumes "i < length xs"
  shows "mset (list_insert (list_pop xs i) j (xs ! i)) = mset xs"
proof -
  let ?ys = "list_pop xs i"
  have "mset (list_insert ?ys j (xs ! i)) = mset (take j ?ys @ drop j ?ys) + {#xs ! i#}"
    unfolding list_insert_def mset_append by simp
  also have "\<dots> = mset ?ys + {#xs ! i#}" by (simp only: append_take_drop_id)
  also have "\<dots> = mset (take i xs @ xs ! i # drop (Suc i) xs)" by (simp add: list_pop_def)
  also have "\<dots> = mset xs" using assms by (simp only: id_take_nth_drop [symmetric])
  finally show ?thesis .
qed

lemma randint0_less: "0 < n \<Longrightarrow> fst (randint0 r n) < n"
  by (simp add: randint0_def)

lemma perturb_order_mset: "mset (fst (perturb_order xs r)) = mset xs"
proof (cases "2 \<le> length xs")
  case False
  then show ?thesis
    by (simp add: perturb_order_def split_beta Let_def)
next
  case True
  then have pos: "0 < length xs" by linarith
  define r1 where "r1 = snd (random_random r)"
  define i1 where "i1 = fst (randint0 r1 (length xs))"
  define r2 where "r2 = snd (randint0 r1 (length xs))"
  define i2 where "i2 = fst (randint0 r2 (length xs))"
  have b1: "i1 < length xs" unfolding i1_def by (rule randint0_less [OF pos])
  have b2: "i2 < length xs" unfolding i2_def by (rule randint0_less [OF pos])
  have sw: "mset (xs[i1 := xs ! i2, i2 := xs ! i1]) = mset xs"
    using b1 b2 by (simp add: mset_swap)
  have pi: "mset (list_insert (list_pop xs i1) i2 (xs ! i1)) = mset xs"
    by (rule mset_pop_insert [OF b1])
  have "fst (perturb_order xs r) =
      (if fst (random_random r) < 0.5
       then (if i1 \<noteq> i2 then xs[i1 := xs ! i2, i2 := xs ! i1] else xs)
       else (if i1 \<noteq> i2 then list_insert (list_pop xs i1) i2 (xs ! i1) else xs))"
    using True by (simp add: perturb_order_def split_beta Let_def r1_def i1_def r2_def i2_def)
  with sw pi show ?thesis by simp
qed

lemma perturb_order_length: "length (fst (perturb_order xs r)) = length xs"
  using perturb_order_mset [of xs r] by (metis size_mset)

lemma perturb_order_set: "set (fst (perturb_order xs r)) = set xs"
  using perturb_order_mset [of xs r] by (metis set_mset_mset)

text \<open>What \<open>tps_order_to_routes\<close> builds from any order, over the spans of the flattening.\<close>

lemma tps_order_to_routes_map_of:
  assumes "distinct ks" "length sp = length ks"
  shows "map_of (tps_order_to_routes tps sp ks d) =
         map_of (zip ks (map (\<lambda>(s, e). [d] @ slice tps s e @ [d]) sp))"
proof -
  from assms have dz: "distinct (map fst (zip ks sp))" by simp
  have "map (\<lambda>(t, s, e). (t, [d] @ slice tps s e @ [d])) (zip ks sp)
        = zip ks (map (\<lambda>(s, e). [d] @ slice tps s e @ [d]) sp)"
    by (simp add: zip_map2 split_beta)
  with unflatten_loop_map_of [OF dz, of tps d "[]"] show ?thesis
    by (simp add: tps_order_to_routes_def)
qed

lemma tps_order_to_routes_keys:
  "length sp = length ks \<Longrightarrow> distinct ks \<Longrightarrow>
   fst ` set (tps_order_to_routes tps sp ks d) = set ks"
proof -
  assume l: "length sp = length ks" and dk: "distinct ks"
  have "dom (map_of (tps_order_to_routes tps sp ks d)) = set ks"
    using l by (simp add: tps_order_to_routes_map_of [OF dk l])
  then show ?thesis by (simp add: dom_map_of_conv_image_fst)
qed

lemma dict_get_framed:
  assumes "depot_framed routes d" "map_of routes t = Some r"
  shows "[d] @ stops_of routes d t @ [d] = r"
proof -
  from assms(2) have "(t, r) \<in> set routes" by (rule map_of_SomeD)
  with assms(1) have "framed d r" by (auto simp: depot_framed_def list_all_iff)
  from framed_filter [OF this] assms(2) show ?thesis
    by (simp add: stops_of_def dict_get_def)
qed

lemma roundtrip_map_of:
  assumes "depot_framed routes d"
  shows "map_of (tps_order_to_routes (fst (routes_to_tps_order routes d))
           (snd (routes_to_tps_order routes d)) (sort (map fst routes)) d) = map_of routes"
proof -
  let ?ks = "sort (map fst routes)"
  let ?segs = "map (stops_of routes d) ?ks"
  from assms have dk: "distinct ?ks" by (simp add: depot_framed_def)
  have sp: "snd (routes_to_tps_order routes d) = spans 0 (map length ?segs)"
    by (simp add: routes_to_tps_order_eq comp_def)
  have tp: "fst (routes_to_tps_order routes d) = [] @ concat ?segs"
    by (simp add: routes_to_tps_order_eq)
  have sl: "map (\<lambda>(s, e). slice ([] @ concat ?segs) s e) (spans 0 (map length ?segs)) = ?segs"
    using slice_spans_concat [of "[]" ?segs] by simp
  have "map (\<lambda>(s, e). [d] @ slice ([] @ concat ?segs) s e @ [d]) (spans 0 (map length ?segs))
      = map (\<lambda>seg. [d] @ seg @ [d]) (map (\<lambda>(s, e). slice ([] @ concat ?segs) s e) (spans 0 (map length ?segs)))"
    by (simp add: split_beta)
  also have "\<dots> = map (\<lambda>k. [d] @ stops_of routes d k @ [d]) ?ks"
    unfolding sl by simp
  finally have vs: "map (\<lambda>(s, e). [d] @ slice ([] @ concat ?segs) s e @ [d]) (spans 0 (map length ?segs))
      = map (\<lambda>k. [d] @ stops_of routes d k @ [d]) ?ks" .
  have "map_of (tps_order_to_routes ([] @ concat ?segs) (spans 0 (map length ?segs)) ?ks d)
      = map_of (zip ?ks (map (\<lambda>k. [d] @ stops_of routes d k @ [d]) ?ks))"
    using tps_order_to_routes_map_of [OF dk, of "spans 0 (map length ?segs)" "[] @ concat ?segs" d]
    unfolding vs by simp
  also have "\<dots> = map_of routes"
  proof
    fix t
    show "map_of (zip ?ks (map (\<lambda>k. [d] @ stops_of routes d k @ [d]) ?ks)) t = map_of routes t"
    proof (cases "map_of routes t")
      case None
      then have "t \<notin> set ?ks" by (simp add: map_of_eq_None_iff)
      with None show ?thesis by (simp add: map_of_zip_map)
    next
      case (Some r)
      then have "t \<in> set ?ks" by (force dest: map_of_SomeD)
      with dict_get_framed [OF assms Some] Some show ?thesis by (simp add: map_of_zip_map)
    qed
  qed
  finally show ?thesis unfolding sp tp .
qed


lemma map_option_map_of_zip:
  "length ks = length vs \<Longrightarrow>
   map_option f (map_of (zip ks vs) t) = map_of (zip ks (map f vs)) t"
  by (induction ks vs rule: list_induct2) simp_all

lemma num_stops_framed_slice:
  "d \<notin> set xs \<Longrightarrow> num_stops d ([d] @ slice xs s e @ [d]) = length (slice xs s e)"
proof -
  assume "d \<notin> set xs"
  with set_slice [of xs s e] have "d \<notin> set (slice xs s e)" by blast
  then have "filter (\<lambda>n. n \<noteq> d) (slice xs s e) = slice xs s e"
    by (auto simp: filter_id_conv)
  then show ?thesis by (simp add: num_stops_def)
qed

lemma depot_not_in_flat: "d \<notin> set (concat (map (stops_of routes d) ks))"
  by (auto simp: stops_of_def)

lemma neighbor_num_stops:
  assumes dk: "distinct (map fst routes)"
  shows "map_option (num_stops d) (map_of (fst (generate_neighbor_solution routes d r)) t)
       = map_option (num_stops d) (map_of routes t)"
proof -
  let ?ks = "sort (map fst routes)"
  let ?segs = "map (stops_of routes d) ?ks"
  let ?tps = "concat ?segs"
  let ?sp = "spans 0 (map length ?segs)"
  define tps' where "tps' = fst (perturb_order ?tps r)"
  let ?vs = "map (\<lambda>(s, e). [d] @ slice tps' s e @ [d]) ?sp"
  from dk have dks: "distinct ?ks" by simp
  have len: "length tps' = length ?tps" unfolding tps'_def by (rule perturb_order_length)
  have "set tps' = set ?tps" unfolding tps'_def by (rule perturb_order_set)
  with depot_not_in_flat [of d routes ?ks] have nd: "d \<notin> set tps'" by simp
  have res: "fst (generate_neighbor_solution routes d r) = tps_order_to_routes tps' ?sp ?ks d"
    by (simp add: generate_neighbor_solution_def routes_to_tps_order_eq split_beta Let_def
                  tps'_def comp_def)
  have m: "map_of (tps_order_to_routes tps' ?sp ?ks d) = map_of (zip ?ks ?vs)"
    by (rule tps_order_to_routes_map_of [OF dks]) simp
  have "map (num_stops d) ?vs = map (\<lambda>(s, e). length (slice tps' s e)) ?sp"
    by (simp add: split_beta num_stops_framed_slice [OF nd] del: append.simps)
  also have "\<dots> = map length ?segs"
    by (rule length_slice_spans) (simp add: len length_concat)
  finally have cnt: "map (num_stops d) ?vs = map (\<lambda>k. length (stops_of routes d k)) ?ks"
    by (simp add: comp_def)
  have "map_option (num_stops d) (map_of (zip ?ks ?vs) t) = map_of (zip ?ks (map (num_stops d) ?vs)) t"
    by (rule map_option_map_of_zip) simp
  also have "\<dots> = (if t \<in> set ?ks then Some (length (stops_of routes d t)) else None)"
    unfolding cnt by (simp add: map_of_zip_map)
  also have "\<dots> = map_option (num_stops d) (map_of routes t)"
  proof (cases "map_of routes t")
    case None
    then have "t \<notin> set ?ks" by (simp add: map_of_eq_None_iff)
    with None show ?thesis by simp
  next
    case (Some route)
    then have "t \<in> set ?ks" by (force dest: map_of_SomeD)
    with Some show ?thesis by (simp add: stops_of_def dict_get_def num_stops_def)
  qed
  finally show ?thesis unfolding res m .
qed

section \<open>Flattened representation: claims\<close>

text \<open>
  C5: for a depot-framed solution, flattening with \<open>routes_to_tps_order\<close> and unflattening
  with \<open>tps_order_to_routes\<close> over the sorted truck ids gives back the same dict, and for
  any random draws the neighbour produced by \<open>generate_neighbor_solution\<close> has the same
  trucks with the same number of stops each.
\<close>

theorem flatten_roundtrip_and_stop_counts:
  assumes "depot_framed routes depot_id"
  shows "map_of (tps_order_to_routes (fst (routes_to_tps_order routes depot_id))
            (snd (routes_to_tps_order routes depot_id)) (sort (map fst routes)) depot_id)
          = map_of routes
       \<and> (\<forall>t. map_option (num_stops depot_id)
                 (map_of (fst (generate_neighbor_solution routes depot_id r)) t)
              = map_option (num_stops depot_id) (map_of routes t))"
proof
  show "map_of (tps_order_to_routes (fst (routes_to_tps_order routes depot_id))
            (snd (routes_to_tps_order routes depot_id)) (sort (map fst routes)) depot_id)
          = map_of routes"
    by (rule roundtrip_map_of [OF assms])
  from assms have "distinct (map fst routes)" by (simp add: depot_framed_def)
  then show "\<forall>t. map_option (num_stops depot_id)
                 (map_of (fst (generate_neighbor_solution routes depot_id r)) t)
              = map_option (num_stops depot_id) (map_of routes t)"
    by (simp add: neighbor_num_stops)
qed


theorem flatten_roundtrip_and_stop_counts_witness:
  "depot_framed [(''T2'', [''D'', ''a'', ''b'', ''D'']), (''T1'', [''D'', ''c'', ''D''])] ''D''
   \<and> routes_to_tps_order [(''T2'', [''D'', ''a'', ''b'', ''D'']), (''T1'', [''D'', ''c'', ''D''])] ''D''
       = ([''c'', ''a'', ''b''], [(0, 1), (1, 3)])
   \<and> map_of (tps_order_to_routes [''c'', ''a'', ''b''] [(0, 1), (1, 3)] [''T1'', ''T2''] ''D'')
       = map_of [(''T2'', [''D'', ''a'', ''b'', ''D'']), (''T1'', [''D'', ''c'', ''D''])]
   \<and> fst (generate_neighbor_solution
              [(''T2'', [''D'', ''a'', ''b'', ''D'']), (''T1'', [''D'', ''c'', ''D''])] ''D'' rng0)
       = [(''T1'', [''D'', ''a'', ''D'']), (''T2'', [''D'', ''c'', ''b'', ''D''])]
   \<and> map_option (num_stops ''D'')
         (map_of (fst (generate_neighbor_solution
              [(''T2'', [''D'', ''a'', ''b'', ''D'']), (''T1'', [''D'', ''c'', ''D''])] ''D'' rng0)) ''T2'')
       = Some 2"
proof -
  let ?R = "[(''T2'', [''D'', ''a'', ''b'', ''D'']), (''T1'', [''D'', ''c'', ''D''])]"
  have fr: "depot_framed ?R ''D''"
    by (simp add: depot_framed_def framed_def)
  have ks: "sort (map fst ?R) = [''T1'', ''T2'']"
    by simp
  have fl: "routes_to_tps_order ?R ''D'' = ([''c'', ''a'', ''b''], [(0, 1), (1, 3)])"
    by (simp add: routes_to_tps_order_def dict_get_def Let_def)
  have pe: "fst (perturb_order [''c'', ''a'', ''b''] rng0) = [''a'', ''c'', ''b'']"
    by (simp add: perturb_order_def random_random_def randint0_def rng0_def Let_def)
  have ge: "fst (generate_neighbor_solution ?R ''D'' rng0)
        = [(''T1'', [''D'', ''a'', ''D'']), (''T2'', [''D'', ''c'', ''b'', ''D''])]"
    using pe by (simp add: generate_neighbor_solution_def fl split_beta
                   tps_order_to_routes_def slice_def)
  from flatten_roundtrip_and_stop_counts [OF fr, of rng0]
  have "map_of (tps_order_to_routes [''c'', ''a'', ''b''] [(0, 1), (1, 3)] [''T1'', ''T2''] ''D'')
          = map_of ?R"
    and "map_option (num_stops ''D'') (map_of (fst (generate_neighbor_solution ?R ''D'' rng0)) ''T2'')
          = map_option (num_stops ''D'') (map_of ?R ''T2'')"
    unfolding fl ks by simp_all
  with fr fl ge show ?thesis by (simp add: num_stops_def)
qed

section \<open>Distances and 2-opt: lemmas\<close>


lemma fadd_commute: "fadd a b = fadd b a"
  by (cases a; cases b; simp)

lemma fadd_zero [simp]: "fadd (Fin 0) a = a" "fadd a (Fin 0) = a"
  by (cases a; simp)+

lemma fle_refl_iff: "fle a a \<longleftrightarrow> a \<noteq> NaN"
  by (cases a; simp)































section \<open>2-opt: claim\<close>




section \<open>Simulated annealing: lemmas\<close>




















section \<open>Simulated annealing: claim\<close>



section \<open>Greedy construction: lemmas\<close>

lemma select_loop_mem:
  "select_loop g td loc cap ns best bd = Some b \<Longrightarrow> b \<in> set ns \<or> best = Some b"
  by (induction ns arbitrary: best bd) (auto simp: Let_def split: if_splits)

























section \<open>Greedy construction: claim\<close>




end
